theory Spec2Isabelle
  imports Main
begin

section \<open>The format string parser of budget\_analyzer/format\_parser.py\<close>

text \<open>
  The module parses a format string such as
  \<^verbatim>\<open>{date:%m/%d/%Y}, {description}, {_}, {amount}\<close>
  into a \<open>FormatSpec\<close>: the position of a segment in the string is the index of the
  column it describes.

  A Python \<open>str\<close> is a sequence of code points. The model takes the code points
  0 to 255 (Latin-1), which are the values of Isabelle's type \<open>char\<close>, and a
  \<open>string\<close> is a list of them. The three library operations that look at single
  characters (\<open>str.strip\<close>, the class \<open>\w\<close> of \<open>re\<close>, \<open>str.lower\<close>) are written
  out for these code points as Python 3 defines them.
\<close>

subsection \<open>Data\<close>

text \<open>The dataclass \<open>FormatSpec\<close>. The columns come from \<open>enumerate\<close>, so they
  are natural numbers; \<open>Optional\<close> fields are options.\<close>

record FormatSpec =
  date_column :: nat
  date_format :: string
  description_column :: nat
  amount_column :: nat
  location_column :: "nat option"
  has_header :: bool
  source_name :: "string option"

text \<open>
  Every failure of the function is a raised exception. One constructor stands for each
  \<open>raise ValueError(...)\<close> of the source and carries the values its f-string
  interpolates:
  \<^item> \<open>EmptyFormatString\<close>: "Empty format string";
  \<^item> \<open>InvalidFormat idx part\<close>: "Invalid format at column idx: 'part'. Expected
    {field} or {field:format}";
  \<^item> \<open>UnknownField field_name idx\<close>: "Unknown field 'field\_name' at column idx.
    Valid fields: ..." (followed by the constant set \<open>valid_fields\<close>);
  \<^item> \<open>DuplicateField field_name idx\<close>: "Duplicate field 'field\_name' at column idx";
  \<^item> \<open>MissingRequiredFields missing\<close>: "Missing required fields: ..." (followed by
    the set \<open>missing\<close>, which Python prints in no fixed order).

  \<open>KeyError k\<close> is the exception of a dictionary subscript \<open>field_positions[k]\<close>
  whose key is absent.
\<close>

datatype error =
    EmptyFormatString
  | InvalidFormat nat string
  | UnknownField string nat
  | DuplicateField string nat
  | MissingRequiredFields "string set"
  | KeyError string

subsection \<open>Characters\<close>

text \<open>\<open>str.strip()\<close> removes the characters for which \<open>str.isspace\<close> holds: tab to
  carriage return, the four separators U+001C to U+001F, the space, U+0085 and
  U+00A0.\<close>

definition py_isspace :: "char \<Rightarrow> bool" where
  "py_isspace c =
     (let n = (of_char c :: nat)
      in (9 \<le> n \<and> n \<le> 13) \<or> (28 \<le> n \<and> n \<le> 32) \<or> n = 133 \<or> n = 160)"

text \<open>The class \<open>\w\<close> of a \<open>str\<close> pattern: the alphanumeric characters
  (\<open>str.isalnum\<close>) and the underscore.\<close>

definition is_word :: "char \<Rightarrow> bool" where
  "is_word c =
     (let n = (of_char c :: nat)
      in (48 \<le> n \<and> n \<le> 57) \<or> (65 \<le> n \<and> n \<le> 90) \<or> n = 95 \<or> (97 \<le> n \<and> n \<le> 122)
         \<or> n = 170 \<or> n = 178 \<or> n = 179 \<or> n = 181 \<or> n = 185 \<or> n = 186
         \<or> (188 \<le> n \<and> n \<le> 190) \<or> (192 \<le> n \<and> n \<le> 214) \<or> (216 \<le> n \<and> n \<le> 246)
         \<or> (248 \<le> n \<and> n \<le> 255))"

text \<open>\<open>str.lower()\<close>, one character at a time: the upper-case letters A to Z,
  U+00C0 to U+00D6 and U+00D8 to U+00DE move up by 32.\<close>

definition lower_char :: "char \<Rightarrow> char" where
  "lower_char c =
     (let n = (of_char c :: nat)
      in if (65 \<le> n \<and> n \<le> 90) \<or> (192 \<le> n \<and> n \<le> 214) \<or> (216 \<le> n \<and> n \<le> 222)
         then char_of (n + 32) else c)"

definition lower :: "string \<Rightarrow> string" where
  "lower s = map lower_char s"

definition strip :: "string \<Rightarrow> string" where
  "strip s = rev (dropWhile py_isspace (rev (dropWhile py_isspace s)))"

subsection \<open>Splitting and matching\<close>

text \<open>\<open>format_str.split(',')\<close>: the pieces between the commas, in order. The
  result of \<open>str.split\<close> with a separator is never the empty list: a string without
  a comma (the empty string too) is its own single piece.\<close>

fun split_comma :: "string \<Rightarrow> string list" where
  "split_comma [] = [[]]"
| "split_comma (c # cs) =
     (if c = CHR '','' then [] # split_comma cs
      else (case split_comma cs of
              p # ps \<Rightarrow> (c # p) # ps
            | [] \<Rightarrow> [[c]]))"

text \<open>
  \<open>field_pattern.match(part)\<close> for the pattern
  \<^verbatim>\<open>\{(\w+)(?::([^}]+))?\}\<close>, anchored at the start of \<open>part\<close> only. The result
  is the pair of group 1 and group 2 (\<open>None\<close> when the optional group took no part).

  The pattern is matched greedily with backtracking, and backtracking never finds a
  match the greedy run misses: after a shorter run of \<open>\w+\<close> the next character is
  a word character, neither \<open>:\<close> nor \<open>}\<close>; after a shorter run of \<open>[^}]+\<close> the next
  character is not \<open>}\<close>; and when the optional group fails after a \<open>:\<close>, the
  closing brace cannot stand where the \<open>:\<close> is.
\<close>

definition field_pattern_match :: "string \<Rightarrow> (string \<times> string option) option" where
  "field_pattern_match part =
     (case part of
        [] \<Rightarrow> None
      | c # cs \<Rightarrow>
          if c \<noteq> CHR ''{'' then None
          else
            let name = takeWhile is_word cs; rest = dropWhile is_word cs
            in if name = [] then None
               else
                 (case rest of
                    [] \<Rightarrow> None
                  | d # ds \<Rightarrow>
                      if d = CHR ''}'' then Some (name, None)
                      else if d = CHR '':'' then
                        (let fmt = takeWhile (\<lambda>x. x \<noteq> CHR ''}'') ds;
                             rest2 = dropWhile (\<lambda>x. x \<noteq> CHR ''}'') ds
                         in if fmt \<noteq> [] \<and> rest2 \<noteq> [] then Some (name, Some fmt) else None)
                      else None))"

subsection \<open>The parser\<close>

definition valid_fields :: "string set" where
  "valid_fields = {''date'', ''description'', ''amount'', ''location''}"

definition required :: "string set" where
  "required = {''date'', ''description'', ''amount''}"

text \<open>The \<open>for idx, part in enumerate(parts)\<close> loop. Its state is the dictionary
  \<open>field_positions\<close> and the variable \<open>date_format\<close> (here \<open>date_fmt\<close>:
  \<open>date_format\<close> is the field of the record); a \<open>raise\<close> ends it with
  \<open>Inl\<close>. \<open>format_spec\<close> is \<open>None\<close> or a non-empty string, so it is true exactly
  when it is not \<open>None\<close>.\<close>

fun parse_loop ::
  "nat \<Rightarrow> string list \<Rightarrow> (string \<rightharpoonup> nat) \<Rightarrow> string \<Rightarrow> error + ((string \<rightharpoonup> nat) \<times> string)"
where
  "parse_loop idx [] field_positions date_fmt = Inr (field_positions, date_fmt)"
| "parse_loop idx (part # rest) field_positions date_fmt =
     (case field_pattern_match part of
        None \<Rightarrow> Inl (InvalidFormat idx part)
      | Some (name, format_spec) \<Rightarrow>
          let field_name = lower name
          in if field_name = ''_'' then parse_loop (Suc idx) rest field_positions date_fmt
             else if field_name \<notin> valid_fields then Inl (UnknownField field_name idx)
             else if field_positions field_name \<noteq> None then Inl (DuplicateField field_name idx)
             else parse_loop (Suc idx) rest (field_positions(field_name \<mapsto> idx))
                    (case format_spec of
                       Some f \<Rightarrow> if field_name = ''date'' then f else date_fmt
                     | None \<Rightarrow> date_fmt))"

text \<open>\<open>parts = [p.strip() for p in format_str.split(',')]\<close>\<close>

definition split_parts :: "string \<Rightarrow> string list" where
  "split_parts format_str = map strip (split_comma format_str)"

text \<open>\<open>required - set(field_positions.keys())\<close>\<close>

definition missing_fields :: "(string \<rightharpoonup> nat) \<Rightarrow> string set" where
  "missing_fields field_positions = required - dom field_positions"

definition parse_format_string :: "string \<Rightarrow> error + FormatSpec" where
  "parse_format_string format_str =
     (let parts = split_parts format_str
      in if parts = [] then Inl EmptyFormatString
         else
           (case parse_loop 0 parts Map.empty ''%m/%d/%Y'' of
              Inl e \<Rightarrow> Inl e
            | Inr (field_positions, date_fmt) \<Rightarrow>
                let missing = missing_fields field_positions
                in if missing \<noteq> {} then Inl (MissingRequiredFields missing)
                   else
                     (case field_positions ''date'' of
                        None \<Rightarrow> Inl (KeyError ''date'')
                      | Some dc \<Rightarrow>
                     (case field_positions ''description'' of
                        None \<Rightarrow> Inl (KeyError ''description'')
                      | Some sc \<Rightarrow>
                     (case field_positions ''amount'' of
                        None \<Rightarrow> Inl (KeyError ''amount'')
                      | Some ac \<Rightarrow>
                          Inr \<lparr>date_column = dc, date_format = date_fmt,
                               description_column = sc, amount_column = ac,
                               location_column = field_positions ''location'',
                               has_header = True, source_name = None\<rparr>)))))"

subsection \<open>Notions used to state the properties\<close>

text \<open>What the loop reads of a segment: the lower-cased identifier (the field tag) and
  the sub-format, when the segment matches the pattern.\<close>

definition segment_field :: "string \<Rightarrow> (string \<times> string option) option" where
  "segment_field part =
     (case field_pattern_match part of
        None \<Rightarrow> None
      | Some (name, format_spec) \<Rightarrow> Some (lower name, format_spec))"

definition field_tag :: "string \<Rightarrow> string option" where
  "field_tag part = map_option fst (segment_field part)"


text \<open>The text \<open>{name}\<close> or \<open>{name:fmt}\<close> of a field, as the docstring writes it, and
  when it is well formed: the name is a non-empty run of word characters, and a
  sub-format is non-empty and has neither a closing brace nor a comma (a comma would
  end the segment).\<close>

definition field_text :: "string \<Rightarrow> string option \<Rightarrow> string" where
  "field_text name fmt =
     CHR ''{'' # name @ (case fmt of None \<Rightarrow> [] | Some f \<Rightarrow> CHR '':'' # f) @ [CHR ''}'']"

definition well_formed_field :: "string \<Rightarrow> string option \<Rightarrow> bool" where
  "well_formed_field name fmt =
     (name \<noteq> [] \<and> list_all is_word name \<and>
      (case fmt of
         None \<Rightarrow> True
       | Some f \<Rightarrow> f \<noteq> [] \<and> CHR ''}'' \<notin> set f \<and> CHR '','' \<notin> set f))"

text \<open>A prefix of a format string ends where the text of a segment may begin: only
  white space follows its last comma (or it is all white space).\<close>

definition segment_start :: "string \<Rightarrow> bool" where
  "segment_start a = list_all py_isspace (takeWhile (\<lambda>c. c \<noteq> CHR '','') (rev a))"

text \<open>Moving the columns at or after position \<open>k\<close> up by \<open>n\<close>.\<close>

definition shift_column :: "nat \<Rightarrow> nat \<Rightarrow> nat \<Rightarrow> nat" where
  "shift_column k n j = (if k \<le> j then j + n else j)"

definition shift_columns :: "nat \<Rightarrow> nat \<Rightarrow> FormatSpec \<Rightarrow> FormatSpec" where
  "shift_columns k n spec =
     spec\<lparr>date_column := shift_column k n (date_column spec),
          description_column := shift_column k n (description_column spec),
          amount_column := shift_column k n (amount_column spec),
          location_column := map_option (shift_column k n) (location_column spec)\<rparr>"

section \<open>Properties\<close>

subsection \<open>Basic facts\<close>

lemma missing_fields_code [code]:
  "missing_fields fp = Set.filter (\<lambda>k. fp k = None) required"
  by (auto simp: missing_fields_def)

lemma split_comma_not_Nil: "split_comma s \<noteq> []"
  by (induction s) (auto split: list.splits)

lemma split_parts_not_Nil: "split_parts s \<noteq> []"
  by (simp add: split_parts_def split_comma_not_Nil)

lemma parse_loop_no_match:
  "segment_field p = None \<Longrightarrow> parse_loop idx (p # ps) fp df = Inl (InvalidFormat idx p)"
  by (auto simp: segment_field_def split: option.splits)

lemma parse_loop_skip:
  "segment_field p = Some (''_'', fmt) \<Longrightarrow>
   parse_loop idx (p # ps) fp df = parse_loop (Suc idx) ps fp df"
  by (auto simp: segment_field_def Let_def split: option.splits)

lemma parse_loop_unknown:
  "segment_field p = Some (t, fmt) \<Longrightarrow> t \<noteq> ''_'' \<Longrightarrow> t \<notin> valid_fields \<Longrightarrow>
   parse_loop idx (p # ps) fp df = Inl (UnknownField t idx)"
  by (auto simp: segment_field_def Let_def split: option.splits)

lemma parse_loop_duplicate:
  "segment_field p = Some (t, fmt) \<Longrightarrow> t \<noteq> ''_'' \<Longrightarrow> t \<in> valid_fields \<Longrightarrow> fp t = Some j \<Longrightarrow>
   parse_loop idx (p # ps) fp df = Inl (DuplicateField t idx)"
  by (auto simp: segment_field_def Let_def split: option.splits)

lemma parse_loop_record:
  "segment_field p = Some (t, fmt) \<Longrightarrow> t \<noteq> ''_'' \<Longrightarrow> t \<in> valid_fields \<Longrightarrow> fp t = None \<Longrightarrow>
   parse_loop idx (p # ps) fp df =
     parse_loop (Suc idx) ps (fp(t \<mapsto> idx))
       (case fmt of Some f \<Rightarrow> if t = ''date'' then f else df | None \<Rightarrow> df)"
  by (auto simp: segment_field_def Let_def split: option.splits)

lemmas parse_loop_Cons =
  parse_loop_no_match parse_loop_skip parse_loop_unknown parse_loop_duplicate parse_loop_record

declare parse_loop.simps(2) [simp del]

lemma parse_loop_cases:
  obtains
    (no_match) "segment_field p = None"
  | (skip) fmt where "segment_field p = Some (''_'', fmt)"
  | (unknown) t fmt where "segment_field p = Some (t, fmt)" "t \<noteq> ''_''" "t \<notin> valid_fields"
  | (duplicate) t fmt j where "segment_field p = Some (t, fmt)" "t \<noteq> ''_''" "t \<in> valid_fields"
      "fp t = Some j"
  | (fresh) t fmt where "segment_field p = Some (t, fmt)" "t \<noteq> ''_''" "t \<in> valid_fields"
      "fp t = None"
  by (cases "segment_field p") (auto, metis not_Some_eq)

lemma parse_loop_append:
  "parse_loop idx (ps @ qs) fp df =
     (case parse_loop idx ps fp df of
        Inl e \<Rightarrow> Inl e
      | Inr (fp', df') \<Rightarrow> parse_loop (idx + length ps) qs fp' df')"
proof (induction ps arbitrary: idx fp df)
  case Nil
  show ?case by simp
next
  case (Cons p ps)
  show ?case
    by (rule parse_loop_cases[where p=p and fp=fp]) (simp_all add: parse_loop_Cons Cons.IH fun_upd_def cong: sum.case_cong)
qed

lemma parse_loop_ok:
  assumes "map field_tag ps = map Some tags"
    and "set tags \<subseteq> insert ''_'' valid_fields"
    and "distinct (filter (\<lambda>t. t \<noteq> ''_'') tags)"
    and "\<forall>t\<in>set tags. t \<noteq> ''_'' \<longrightarrow> fp t = None"
  shows "\<exists>fp' df'. parse_loop idx ps fp df = Inr (fp', df') \<and>
           (\<forall>f j. fp' f = Some j \<longleftrightarrow>
              (fp f = Some j \<or> (f \<noteq> ''_'' \<and> idx \<le> j \<and> j < idx + length tags \<and> tags ! (j - idx) = f)))"
  using assms
proof (induction ps arbitrary: tags idx fp df)
  case Nil
  then show ?case by auto
next
  case (Cons p ps)
  from Cons.prems(1) obtain t ts where tags: "tags = t # ts"
    and tp: "field_tag p = Some t" and rest: "map field_tag ps = map Some ts"
    by (cases tags) auto
  from tp obtain fmt where sf: "segment_field p = Some (t, fmt)"
    by (auto simp: field_tag_def)
  have ts_sub: "set ts \<subseteq> insert ''_'' valid_fields"
    using Cons.prems(2) tags by auto
  have ts_dist: "distinct (filter (\<lambda>t. t \<noteq> ''_'') ts)"
    using Cons.prems(3) tags by (auto split: if_splits)
  show ?case
  proof (cases "t = ''_''")
    case True
    have fresh: "\<forall>t\<in>set ts. t \<noteq> ''_'' \<longrightarrow> fp t = None"
      using Cons.prems(4) tags by auto
    from Cons.IH[OF rest ts_sub ts_dist fresh, of "Suc idx" df]
    obtain fp' df' where run: "parse_loop (Suc idx) ps fp df = Inr (fp', df')"
      and pos: "\<forall>f j. fp' f = Some j \<longleftrightarrow>
              (fp f = Some j \<or> (f \<noteq> ''_'' \<and> Suc idx \<le> j \<and> j < Suc idx + length ts \<and> ts ! (j - Suc idx) = f))"
      by blast
    have "parse_loop idx (p # ps) fp df = Inr (fp', df')"
      using sf True run by (simp add: parse_loop_skip)
    moreover have "fp' f = Some j \<longleftrightarrow>
              (fp f = Some j \<or> (f \<noteq> ''_'' \<and> idx \<le> j \<and> j < idx + length tags \<and> tags ! (j - idx) = f))" for f j
    proof (cases "j \<le> idx")
      case True
      with pos \<open>t = ''_''\<close> tags show ?thesis by (cases "j = idx") auto
    next
      case False
      then have "j - idx = Suc (j - Suc idx)" by arith
      with pos False tags show ?thesis by auto
    qed
    ultimately show ?thesis by blast
  next
    case False
    have tv: "t \<in> valid_fields" using Cons.prems(2) tags False by auto
    have tnone: "fp t = None" using Cons.prems(4) tags False by auto
    have tnotin: "t \<notin> set ts" using Cons.prems(3) tags False by auto
    let ?df1 = "case fmt of Some f \<Rightarrow> if t = ''date'' then f else df | None \<Rightarrow> df"
    have fresh: "\<forall>u\<in>set ts. u \<noteq> ''_'' \<longrightarrow> (fp(t \<mapsto> idx)) u = None"
      using Cons.prems(4) tags tnotin by auto
    from Cons.IH[OF rest ts_sub ts_dist fresh, of "Suc idx" ?df1]
    obtain fp' df' where run: "parse_loop (Suc idx) ps (fp(t \<mapsto> idx)) ?df1 = Inr (fp', df')"
      and pos: "\<forall>f j. fp' f = Some j \<longleftrightarrow>
              ((fp(t \<mapsto> idx)) f = Some j \<or> (f \<noteq> ''_'' \<and> Suc idx \<le> j \<and> j < Suc idx + length ts \<and> ts ! (j - Suc idx) = f))"
      by blast
    have "parse_loop idx (p # ps) fp df = Inr (fp', df')"
      using sf False tv tnone run by (simp add: parse_loop_record)
    moreover have "fp' f = Some j \<longleftrightarrow>
              (fp f = Some j \<or> (f \<noteq> ''_'' \<and> idx \<le> j \<and> j < idx + length tags \<and> tags ! (j - idx) = f))" for f j
    proof (cases "j \<le> idx")
      case True
      with pos False tags tnone show ?thesis by (cases "j = idx") auto
    next
      case jgt: False
      then have eq: "j - idx = Suc (j - Suc idx)" by arith
      have "ts ! (j - Suc idx) \<noteq> t" if "j < Suc idx + length ts"
        using tnotin that jgt by (metis add_diff_inverse_nat less_Suc_eq_le nat_add_left_cancel_less nth_mem)
      with pos jgt tags eq tnone show ?thesis by auto
    qed
    ultimately show ?thesis by blast
  qed
qed

lemma count_list_le1_distinct:
  "(\<forall>x\<in>set xs. count_list xs x \<le> 1) \<Longrightarrow> distinct xs"
proof (induction xs)
  case Nil
  show ?case by simp
next
  case (Cons a xs)
  from Cons.prems have "count_list (a # xs) a \<le> 1" by simp
  then have "count_list xs a = 0" by simp
  then have notin: "a \<notin> set xs" by (simp add: count_list_0_iff)
  have "count_list xs x \<le> 1" if "x \<in> set xs" for x
  proof -
    from that Cons.prems have "count_list (a # xs) x \<le> 1" by simp
    moreover have "x \<noteq> a" using that notin by blast
    ultimately show ?thesis by simp
  qed
  with Cons.IH notin show ?case by simp
qed

lemma count_list_filter:
  "count_list (filter P xs) x = (if P x then count_list xs x else 0)"
  by (induction xs) simp_all

lemma count_list_pos_mem: "0 < count_list xs x \<Longrightarrow> x \<in> set xs"
  using count_list_0_iff[of xs x] by (cases "x \<in> set xs") simp_all

lemma parse_format_string_loop:
  assumes "parse_loop 0 (split_parts s) Map.empty ''%m/%d/%Y'' = Inr (fp, df)"
    and "fp ''date'' = Some dc" and "fp ''description'' = Some sc" and "fp ''amount'' = Some ac"
  shows "parse_format_string s =
     Inr \<lparr>date_column = dc, date_format = df, description_column = sc, amount_column = ac,
          location_column = fp ''location'', has_header = True, source_name = None\<rparr>"
proof -
  have "required \<subseteq> dom fp"
    unfolding required_def using assms(2-4) by blast
  then have "missing_fields fp = {}"
    by (simp add: missing_fields_def)
  with assms show ?thesis
    by (simp add: parse_format_string_def split_parts_not_Nil Let_def)
qed

lemma parse_format_string_missing:
  "parse_loop 0 (split_parts s) Map.empty ''%m/%d/%Y'' = Inr (fp, df) \<Longrightarrow>
   \<not> required \<subseteq> dom fp \<Longrightarrow>
   parse_format_string s = Inl (MissingRequiredFields (required - dom fp))"
  by (simp add: parse_format_string_def split_parts_not_Nil missing_fields_def Let_def)

lemma parse_format_string_error:
  "parse_loop 0 (split_parts s) Map.empty ''%m/%d/%Y'' = Inl e \<Longrightarrow>
   parse_format_string s = Inl e"
  by (simp add: parse_format_string_def split_parts_not_Nil Let_def)

text \<open>The equations that evaluate the parser on a concrete string.\<close>

lemmas ev = is_word_def py_isspace_def lower_def lower_char_def char_of_def strip_def
  field_pattern_match_def split_parts_def parse_format_string_def valid_fields_def required_def
  missing_fields_code bit_Suc_0_iff segment_field_def field_tag_def parse_loop.simps(2)

subsection \<open>The examples of the docstring\<close>

text \<open>
  Claim C7. The second example of the docstring: the skip segment takes position 1
  and leaves no entry, so the description is column 2, the location column 3 and the
  amount column 4; the date format is the sub-format of the date segment.
\<close>

theorem parse_docstring_example:
  "parse_format_string ''{date:%Y-%m-%d}, {_}, {description}, {location}, {amount}'' =
     Inr \<lparr>date_column = 0, date_format = ''%Y-%m-%d'', description_column = 2,
          amount_column = 4, location_column = Some 3, has_header = True,
          source_name = None\<rparr>"
  by code_simp

subsection \<open>The empty format string\<close>

text \<open>
  Claim C1. \<open>str.split\<close> returns one empty piece for the empty string, so \<open>parts\<close>
  is not empty, the test \<open>if not parts\<close> does not fire, and the loop rejects the empty
  piece at column 0: the message is the one of an invalid segment, not "Empty format
  string".
\<close>

theorem parse_empty_string:
  "parse_format_string [] = Inl (InvalidFormat 0 [])"
  by code_simp

text \<open>A string of white space only is one piece, which strips to the empty piece: the
  same error.\<close>

lemma parse_whitespace_only:
  assumes "list_all py_isspace s"
  shows "parse_format_string s = Inl (InvalidFormat 0 [])"
proof -
  have "\<not> py_isspace CHR '',''" by (simp add: py_isspace_def)
  with assms have "CHR '','' \<notin> set s" by (auto simp: list_all_iff)
  then have "split_comma s = [s]" by (induction s) auto
  moreover have "strip s = []"
  proof -
    from assms have "\<forall>c\<in>set s. py_isspace c" by (simp add: list_all_iff)
    then have d: "dropWhile py_isspace s = []" by (rule dropWhile_eq_Nil_conv[THEN iffD2])
    show ?thesis unfolding strip_def d by simp
  qed
  ultimately have parts: "split_parts s = [[]]" by (simp add: split_parts_def)
  have "segment_field [] = None"
    by (simp add: segment_field_def field_pattern_match_def)
  then have "parse_loop 0 [[]] Map.empty ''%m/%d/%Y'' = Inl (InvalidFormat 0 [])"
    by (rule parse_loop_no_match)
  then show ?thesis
    by (simp add: parse_format_string_error parts)
qed

text \<open>No input at all reaches \<open>raise ValueError("Empty format string")\<close>.\<close>

lemma never_empty_format_string:
  "parse_format_string s \<noteq> Inl EmptyFormatString"
proof (cases "parse_loop 0 (split_parts s) Map.empty ''%m/%d/%Y''")
  case (Inl e)
  have "e \<noteq> EmptyFormatString" if "parse_loop idx ps fp df = Inl e" for idx ps fp df
    using that
  proof (induction ps arbitrary: idx fp df)
    case Nil
    then show ?case by simp
  next
    case (Cons p ps)
    show ?case
      by (rule parse_loop_cases[where p=p and fp=fp])
        (use Cons in \<open>auto simp: parse_loop_Cons\<close>)
  qed
  with Inl show ?thesis
    by (auto simp: parse_format_string_error)
next
  case (Inr r)
  then show ?thesis
    by (cases r) (auto simp: parse_format_string_def split_parts_not_Nil Let_def
        split: option.splits)
qed

subsection \<open>Well-formed format strings\<close>

text \<open>
  Claim C2. Take a format string all of whose comma-separated segments match the brace
  syntax, with the field tags \<open>tags\<close> (the lower-cased identifiers, in the order of the
  segments), each of them \<open>_\<close>, \<open>date\<close>, \<open>description\<close>, \<open>amount\<close> or
  \<open>location\<close>. If \<open>date\<close>, \<open>description\<close> and \<open>amount\<close> each occur exactly once
  and \<open>location\<close> at most once, \<open>parse_format_string\<close> returns a \<open>FormatSpec\<close>, the
  three columns are the zero-based positions of the segments that carry the three tags,
  and they are pairwise distinct.
\<close>

theorem parse_well_formed:
  assumes tags: "map field_tag (split_parts s) = map Some tags"
    and known: "set tags \<subseteq> {''_'', ''date'', ''description'', ''amount'', ''location''}"
    and one_date: "count_list tags ''date'' = 1"
    and one_description: "count_list tags ''description'' = 1"
    and one_amount: "count_list tags ''amount'' = 1"
    and one_location: "count_list tags ''location'' \<le> 1"
  shows "\<exists>spec. parse_format_string s = Inr spec
           \<and> date_column spec < length tags \<and> tags ! date_column spec = ''date''
           \<and> description_column spec < length tags
           \<and> tags ! description_column spec = ''description''
           \<and> amount_column spec < length tags \<and> tags ! amount_column spec = ''amount''
           \<and> date_column spec \<noteq> description_column spec
           \<and> date_column spec \<noteq> amount_column spec
           \<and> description_column spec \<noteq> amount_column spec"
proof -
  have sub: "set tags \<subseteq> insert ''_'' valid_fields"
    using known unfolding valid_fields_def by blast
  have "\<forall>x\<in>set (filter (\<lambda>t. t \<noteq> ''_'') tags). count_list (filter (\<lambda>t. t \<noteq> ''_'') tags) x \<le> 1"
  proof
    fix x assume "x \<in> set (filter (\<lambda>t. t \<noteq> ''_'') tags)"
    then have x: "x \<in> {''_'', ''date'', ''description'', ''amount'', ''location''}" "x \<noteq> ''_''"
      using known by auto
    from x have "count_list tags x \<le> 1"
      using one_date one_description one_amount one_location
      by (elim insertE emptyE) simp_all
    with x(2) show "count_list (filter (\<lambda>t. t \<noteq> ''_'') tags) x \<le> 1"
      by (simp add: count_list_filter)
  qed
  then have dist: "distinct (filter (\<lambda>t. t \<noteq> ''_'') tags)"
    by (rule count_list_le1_distinct)
  from parse_loop_ok[OF tags sub dist, of Map.empty 0 "''%m/%d/%Y''"]
  obtain fp df where run: "parse_loop 0 (split_parts s) Map.empty ''%m/%d/%Y'' = Inr (fp, df)"
    and pos: "\<And>f j. fp f = Some j \<longleftrightarrow> f \<noteq> ''_'' \<and> j < length tags \<and> tags ! j = f"
    by auto
  have mem: "''date'' \<in> set tags" "''description'' \<in> set tags" "''amount'' \<in> set tags"
    using one_date one_description one_amount by (simp_all add: count_list_pos_mem)
  from mem(1) obtain dc where dc: "dc < length tags" "tags ! dc = ''date''"
    by (auto simp: in_set_conv_nth)
  from mem(2) obtain sc where sc: "sc < length tags" "tags ! sc = ''description''"
    by (auto simp: in_set_conv_nth)
  from mem(3) obtain ac where ac: "ac < length tags" "tags ! ac = ''amount''"
    by (auto simp: in_set_conv_nth)
  have "fp ''date'' = Some dc" "fp ''description'' = Some sc" "fp ''amount'' = Some ac"
    using dc sc ac by (simp_all add: pos)
  from parse_format_string_loop[OF run this]
  have res: "parse_format_string s =
     Inr \<lparr>date_column = dc, date_format = df, description_column = sc, amount_column = ac,
          location_column = fp ''location'', has_header = True, source_name = None\<rparr>" .
  have "dc \<noteq> sc" "dc \<noteq> ac" "sc \<noteq> ac"
    using dc(2) sc(2) ac(2) by auto
  with res dc sc ac show ?thesis by simp
qed

theorem parse_well_formed_witness:
  "\<exists>spec. parse_format_string ''{amount} , {_},{Description}x, {DATE:%d.%m.%Y}, {_}'' = Inr spec
     \<and> date_column spec < length [''amount'', ''_'', ''description'', ''date'', ''_'']
     \<and> [''amount'', ''_'', ''description'', ''date'', ''_''] ! date_column spec = ''date''
     \<and> description_column spec < length [''amount'', ''_'', ''description'', ''date'', ''_'']
     \<and> [''amount'', ''_'', ''description'', ''date'', ''_''] ! description_column spec = ''description''
     \<and> amount_column spec < length [''amount'', ''_'', ''description'', ''date'', ''_'']
     \<and> [''amount'', ''_'', ''description'', ''date'', ''_''] ! amount_column spec = ''amount''
     \<and> date_column spec \<noteq> description_column spec
     \<and> date_column spec \<noteq> amount_column spec
     \<and> description_column spec \<noteq> amount_column spec"
proof -
  have h: "map field_tag (split_parts ''{amount} , {_},{Description}x, {DATE:%d.%m.%Y}, {_}'') =
      map Some [''amount'', ''_'', ''description'', ''date'', ''_'']"
    by (simp add: ev)
  show ?thesis
    by (rule parse_well_formed[OF h]) simp_all
qed

subsection \<open>The errors of the loop and of the completeness check\<close>

text \<open>When every segment matches, with tags that are known and not repeated, the loop
  ends without an error and has recorded exactly the tags other than \<open>_\<close>; the same
  holds for the segments before a position \<open>j\<close>.\<close>

lemma parse_loop_recorded:
  assumes "map field_tag ps = map Some tags"
    and "set tags \<subseteq> insert ''_'' valid_fields"
    and "distinct (filter (\<lambda>t. t \<noteq> ''_'') tags)"
  shows "\<exists>fp df. parse_loop 0 ps Map.empty df0 = Inr (fp, df) \<and>
           dom fp = set tags - {''_''}"
proof -
  from parse_loop_ok[OF assms, of Map.empty 0 df0]
  obtain fp df where run: "parse_loop 0 ps Map.empty df0 = Inr (fp, df)"
    and pos: "\<And>f j. fp f = Some j \<longleftrightarrow> f \<noteq> ''_'' \<and> j < length tags \<and> tags ! j = f"
    by auto
  have "f \<in> dom fp \<longleftrightarrow> f \<in> set tags - {''_''}" for f
  proof
    assume "f \<in> dom fp"
    then obtain j where "fp f = Some j" by blast
    then show "f \<in> set tags - {''_''}" using pos[of f j] by auto
  next
    assume "f \<in> set tags - {''_''}"
    then obtain j where "j < length tags" "tags ! j = f" "f \<noteq> ''_''"
      by (auto simp: in_set_conv_nth)
    then have "fp f = Some j" using pos[of f j] by simp
    then show "f \<in> dom fp" by blast
  qed
  then have "dom fp = set tags - {''_''}" by blast
  with run show ?thesis by blast
qed

lemma parse_loop_prefix:
  assumes j: "j < length ps"
    and tags: "map field_tag (take j ps) = map Some tags"
    and known: "set tags \<subseteq> insert ''_'' valid_fields"
    and nodup: "distinct (filter (\<lambda>t. t \<noteq> ''_'') tags)"
  shows "\<exists>fp df. parse_loop 0 ps Map.empty df0 = parse_loop j (ps ! j # drop (Suc j) ps) fp df \<and>
           dom fp = set tags - {''_''}"
proof -
  from parse_loop_recorded[OF tags known nodup, of df0]
  obtain fp df where run: "parse_loop 0 (take j ps) Map.empty df0 = Inr (fp, df)"
    and dom: "dom fp = set tags - {''_''}"
    by blast
  have "ps = take j ps @ ps ! j # drop (Suc j) ps"
    using j by (simp add: id_take_nth_drop)
  then have "parse_loop 0 ps Map.empty df0 =
      parse_loop 0 (take j ps @ ps ! j # drop (Suc j) ps) Map.empty df0"
    by simp
  also have "\<dots> = parse_loop j (ps ! j # drop (Suc j) ps) fp df"
    using j by (simp add: parse_loop_append run min_def)
  finally show ?thesis using dom by blast
qed

text \<open>
  Claim C5. Take a format string all of whose segments match the brace syntax, each tag
  being \<open>_\<close> or a valid field, and no tag other than \<open>_\<close> occurring twice. If one of
  \<open>date\<close>, \<open>description\<close>, \<open>amount\<close> is not among the tags, the function fails with
  "Missing required fields", and the set it names is \<open>required\<close> minus the tags of the
  segments. For \<open>{description}, {amount}\<close> that set is \<open>{date}\<close>.
\<close>

theorem missing_required_error:
  assumes tags: "map field_tag (split_parts s) = map Some tags"
    and known: "set tags \<subseteq> insert ''_'' valid_fields"
    and nodup: "distinct (filter (\<lambda>t. t \<noteq> ''_'') tags)"
    and lacks: "\<not> required \<subseteq> set tags"
  shows "parse_format_string s = Inl (MissingRequiredFields (required - set tags))"
proof -
  from parse_loop_recorded[OF tags known nodup, of "''%m/%d/%Y''"]
  obtain fp df where run: "parse_loop 0 (split_parts s) Map.empty ''%m/%d/%Y'' = Inr (fp, df)"
    and dom: "dom fp = set tags - {''_''}"
    by blast
  have skip: "''_'' \<notin> required" by (simp add: required_def)
  have eq: "required - dom fp = required - set tags"
    using skip dom by blast
  have "\<not> required \<subseteq> dom fp"
    using lacks dom by blast
  from parse_format_string_missing[OF run this] eq show ?thesis by simp
qed

theorem missing_required_error_witness:
  "parse_format_string ''{description}, {amount}'' = Inl (MissingRequiredFields {''date''})"
proof -
  have tags: "map field_tag (split_parts ''{description}, {amount}'') =
      map Some [''description'', ''amount'']"
    by (simp add: ev)
  have known: "set [''description'', ''amount''] \<subseteq> insert ''_'' valid_fields"
    by (simp add: valid_fields_def)
  have nodup: "distinct (filter (\<lambda>t. t \<noteq> ''_'') [''description'', ''amount''])"
    by simp
  have lacks: "\<not> required \<subseteq> set [''description'', ''amount'']"
    by (simp add: required_def)
  have "required - set [''description'', ''amount''] = {''date''}"
    by code_simp
  with missing_required_error[OF tags known nodup lacks] show ?thesis by simp
qed

text \<open>
  Claim C4, as the code has it. The loop raises at the first segment that fails, so a
  repeated tag is reported only when no earlier segment has failed: if the segments
  before position \<open>j\<close> all match, with tags that are \<open>_\<close> or valid fields and not
  repeated among them, and segment \<open>j\<close> carries a tag other than \<open>_\<close> that one of them
  carries, the function fails with "Duplicate field" for that tag at column \<open>j\<close>. For
  \<open>{date}, {date}, {description}, {amount}\<close> this is the column 1.
\<close>

theorem duplicate_field_error:
  assumes j: "j < length (split_parts s)"
    and tags: "map field_tag (take j (split_parts s)) = map Some tags"
    and known: "set tags \<subseteq> insert ''_'' valid_fields"
    and nodup: "distinct (filter (\<lambda>t. t \<noteq> ''_'') tags)"
    and again: "field_tag (split_parts s ! j) = Some t"
    and t: "t \<noteq> ''_''" "t \<in> set tags"
  shows "parse_format_string s = Inl (DuplicateField t j)"
proof -
  from parse_loop_prefix[OF j tags known nodup, of "''%m/%d/%Y''"]
  obtain fp df where run: "parse_loop 0 (split_parts s) Map.empty ''%m/%d/%Y'' =
        parse_loop j (split_parts s ! j # drop (Suc j) (split_parts s)) fp df"
    and dom: "dom fp = set tags - {''_''}"
    by blast
  from again obtain fmt where sf: "segment_field (split_parts s ! j) = Some (t, fmt)"
    by (auto simp: field_tag_def)
  have tv: "t \<in> valid_fields" using known t by blast
  have "t \<in> dom fp" using dom t by blast
  then obtain i where "fp t = Some i" by blast
  with sf t(1) tv run
  have "parse_loop 0 (split_parts s) Map.empty ''%m/%d/%Y'' = Inl (DuplicateField t j)"
    by (simp add: parse_loop_duplicate)
  then show ?thesis by (rule parse_format_string_error)
qed

theorem duplicate_field_error_witness:
  "parse_format_string ''{date}, {date}, {description}, {amount}'' =
     Inl (DuplicateField ''date'' 1)"
proof -
  have parts: "split_parts ''{date}, {date}, {description}, {amount}'' =
      [''{date}'', ''{date}'', ''{description}'', ''{amount}'']"
    by (simp add: ev)
  have tag: "field_tag ''{date}'' = Some ''date''"
    by (simp add: ev)
  show ?thesis
    by (rule duplicate_field_error[where tags = "[''date'']"])
      (simp_all add: parts tag valid_fields_def)
qed

text \<open>
  Without the condition on the earlier segments the property fails: in
  \<open>{color}, {date}, {date}\<close> the tag \<open>date\<close> stands in the segments 1 and 2, and the
  function fails at column 0 with "Unknown field" for \<open>color\<close>.
\<close>

theorem duplicate_field_counterexample:
  "field_tag (split_parts ''{color}, {date}, {date}'' ! 1) = Some ''date''
   \<and> field_tag (split_parts ''{color}, {date}, {date}'' ! 2) = Some ''date''
   \<and> parse_format_string ''{color}, {date}, {date}'' = Inl (UnknownField ''color'' 0)"
  by code_simp

text \<open>
  Claim C6, as the code has it. If the segments before position \<open>j\<close> all match, with
  tags that are \<open>_\<close> or valid fields and not repeated among them, and segment \<open>j\<close>
  matches with a tag that is neither \<open>_\<close> nor a valid field, the function fails with
  "Unknown field" for that tag at column \<open>j\<close>. For
  \<open>{color}, {description}, {amount}, {date}\<close> this is \<open>color\<close> at column 0.
\<close>

theorem unknown_field_error:
  assumes j: "j < length (split_parts s)"
    and tags: "map field_tag (take j (split_parts s)) = map Some tags"
    and known: "set tags \<subseteq> insert ''_'' valid_fields"
    and nodup: "distinct (filter (\<lambda>t. t \<noteq> ''_'') tags)"
    and unknown: "field_tag (split_parts s ! j) = Some t"
    and t: "t \<noteq> ''_''" "t \<notin> valid_fields"
  shows "parse_format_string s = Inl (UnknownField t j)"
proof -
  from parse_loop_prefix[OF j tags known nodup, of "''%m/%d/%Y''"]
  obtain fp df where run: "parse_loop 0 (split_parts s) Map.empty ''%m/%d/%Y'' =
        parse_loop j (split_parts s ! j # drop (Suc j) (split_parts s)) fp df"
    by blast
  from unknown obtain fmt where sf: "segment_field (split_parts s ! j) = Some (t, fmt)"
    by (auto simp: field_tag_def)
  with t run
  have "parse_loop 0 (split_parts s) Map.empty ''%m/%d/%Y'' = Inl (UnknownField t j)"
    by (simp add: parse_loop_unknown)
  then show ?thesis by (rule parse_format_string_error)
qed

theorem unknown_field_error_witness:
  "parse_format_string ''{color}, {description}, {amount}, {date}'' =
     Inl (UnknownField ''color'' 0)"
proof -
  have parts: "split_parts ''{color}, {description}, {amount}, {date}'' =
      [''{color}'', ''{description}'', ''{amount}'', ''{date}'']"
    by (simp add: ev)
  have tag: "field_tag ''{color}'' = Some ''color''"
    by (simp add: ev)
  show ?thesis
    by (rule unknown_field_error[where tags = "[]"])
      (simp_all add: parts tag valid_fields_def)
qed

text \<open>
  Without the condition on the earlier segments the property fails: in
  \<open>{date}, {date}, {color}\<close> the segment 2 carries the unknown tag \<open>color\<close>, and the
  function fails at column 1 with "Duplicate field" for \<open>date\<close>.
\<close>

theorem unknown_field_counterexample:
  "field_tag (split_parts ''{date}, {date}, {color}'' ! 2) = Some ''color''
   \<and> ''color'' \<notin> valid_fields \<and> ''color'' \<noteq> ''_''
   \<and> parse_format_string ''{date}, {date}, {color}'' = Inl (DuplicateField ''date'' 1)"
  by code_simp

subsection \<open>The date format\<close>





subsection \<open>Segments inside a format string\<close>

text \<open>How \<open>split_comma\<close> and \<open>strip\<close> act on a string written as a prefix, a piece
  without a comma and a rest; and what the pattern reads of a well-formed field text,
  whatever follows it.\<close>

lemma split_comma_append:
  "split_comma (a @ b) =
     butlast (split_comma a) @ (last (split_comma a) @ hd (split_comma b)) # tl (split_comma b)"
proof (induction a)
  case Nil
  show ?case by (simp add: split_comma_not_Nil)
next
  case (Cons c a)
  obtain p ps where sa: "split_comma a = p # ps"
    using split_comma_not_Nil[of a] by (cases "split_comma a") auto
  show ?case
  proof (cases "c = CHR '',''")
    case True
    then show ?thesis by (simp add: Cons.IH split_comma_not_Nil)
  next
    case False
    then show ?thesis
      by (cases ps) (simp_all add: Cons.IH sa)
  qed
qed

lemma split_comma_no_comma: "CHR '','' \<notin> set s \<Longrightarrow> split_comma s = [s]"
  by (induction s) auto

lemma last_split_comma:
  "last (split_comma a) = rev (takeWhile (\<lambda>c. c \<noteq> CHR '','') (rev a))"
proof (induction a rule: rev_induct)
  case Nil
  show ?case by simp
next
  case (snoc c a)
  show ?case
  proof (cases "c = CHR '',''")
    case True
    then show ?thesis by (simp add: split_comma_append[of a "[CHR '','']"])
  next
    case False
    then show ?thesis by (simp add: split_comma_append[of a "[c]"] snoc.IH)
  qed
qed

lemma length_split_comma:
  "length (split_comma a) = Suc (length (filter (\<lambda>c. c = CHR '','') a))"
proof (induction a)
  case Nil
  show ?case by simp
next
  case (Cons c a)
  obtain p ps where sa: "split_comma a = p # ps"
    using split_comma_not_Nil[of a] by (cases "split_comma a") auto
  with Cons.IH show ?case by auto
qed

lemma split_parts_middle:
  assumes "CHR '','' \<notin> set m"
  shows "split_parts (a @ m @ r) =
     map strip (butlast (split_comma a)) @
     strip (last (split_comma a) @ m @ hd (split_comma r)) # map strip (tl (split_comma r))"
proof -
  have "split_comma (m @ r) = (m @ hd (split_comma r)) # tl (split_comma r)"
    using assms by (simp add: split_comma_append[of m r] split_comma_no_comma)
  then show ?thesis
    by (simp add: split_parts_def split_comma_append[of a "m @ r"])
qed

lemma strip_leading:
  assumes "list_all py_isspace ws" and "\<not> py_isspace c"
  shows "strip (ws @ c # r) = c # rev (dropWhile py_isspace (rev r))"
proof -
  have "dropWhile py_isspace (ws @ c # r) = c # r"
    using assms by (simp add: dropWhile_append list_all_iff)
  then show ?thesis
    using assms(2) by (simp add: strip_def dropWhile_append)
qed

lemma rstrip_keep:
  assumes "\<not> py_isspace c"
  shows "rev (dropWhile py_isspace (rev (u @ c # v))) = u @ c # rev (dropWhile py_isspace (rev v))"
  using assms by (simp add: dropWhile_append)

lemma not_word_chars: "\<not> is_word CHR ''}''" "\<not> is_word CHR '':''" "\<not> is_word CHR '',''"
  by (simp_all add: is_word_def)

lemma not_space_chars: "\<not> py_isspace CHR ''{''" "\<not> py_isspace CHR ''}''"
  by (simp_all add: py_isspace_def)

lemma field_pattern_match_field_text:
  assumes "well_formed_field name fmt"
  shows "field_pattern_match (field_text name fmt @ t) = Some (name, fmt)"
proof -
  from assms have name: "name \<noteq> []" "\<forall>c\<in>set name. is_word c"
    by (simp_all add: well_formed_field_def list_all_iff)
  show ?thesis
  proof (cases fmt)
    case None
    have tw: "takeWhile is_word (name @ CHR ''}'' # t) = name"
      and dw: "dropWhile is_word (name @ CHR ''}'' # t) = CHR ''}'' # t"
      using name(2) not_word_chars(1) by (simp_all add: takeWhile_append dropWhile_append)
    show ?thesis
      using name(1) by (simp add: None field_pattern_match_def field_text_def tw dw)
  next
    case (Some f)
    with assms have f: "f \<noteq> []" "CHR ''}'' \<notin> set f"
      by (simp_all add: well_formed_field_def)
    have tw: "takeWhile is_word (name @ CHR '':'' # f @ CHR ''}'' # t) = name"
      and dw: "dropWhile is_word (name @ CHR '':'' # f @ CHR ''}'' # t) = CHR '':'' # f @ CHR ''}'' # t"
      using name(2) not_word_chars(2) by (simp_all add: takeWhile_append dropWhile_append)
    have tf: "takeWhile (\<lambda>x. x \<noteq> CHR ''}'') (f @ CHR ''}'' # t) = f"
      and df: "dropWhile (\<lambda>x. x \<noteq> CHR ''}'') (f @ CHR ''}'' # t) = CHR ''}'' # t"
      using f(2) by (simp_all add: takeWhile_append dropWhile_append)
    show ?thesis
      using name(1) f(1)
      by (simp add: Some field_pattern_match_def field_text_def tw dw tf df)
  qed
qed

lemma field_text_no_comma:
  assumes "well_formed_field name fmt"
  shows "CHR '','' \<notin> set (field_text name fmt)"
proof -
  from assms have "\<forall>c\<in>set name. is_word c"
    by (simp add: well_formed_field_def list_all_iff)
  then have "CHR '','' \<notin> set name" using not_word_chars(3) by blast
  with assms show ?thesis
    by (cases fmt) (simp_all add: field_text_def well_formed_field_def)
qed

lemma strip_field_text:
  assumes "segment_start a"
  shows "\<exists>t'. strip (last (split_comma a) @ field_text name fmt @ t) = field_text name fmt @ t'"
proof -
  have ws: "list_all py_isspace (last (split_comma a))"
    using assms by (simp add: segment_start_def last_split_comma list_all_iff)
  define body where "body = name @ (case fmt of None \<Rightarrow> [] | Some f \<Rightarrow> CHR '':'' # f)"
  have ft: "field_text name fmt = CHR ''{'' # body @ [CHR ''}'']"
    by (simp add: field_text_def body_def)
  have "strip (last (split_comma a) @ field_text name fmt @ t) =
      CHR ''{'' # rev (dropWhile py_isspace (rev (body @ CHR ''}'' # t)))"
    using strip_leading[OF ws not_space_chars(1), of "body @ CHR ''}'' # t"] by (simp add: ft)
  also have "\<dots> = CHR ''{'' # body @ CHR ''}'' # rev (dropWhile py_isspace (rev t))"
    by (simp only: rstrip_keep[OF not_space_chars(2)])
  also have "\<dots> = field_text name fmt @ rev (dropWhile py_isspace (rev t))"
    by (simp add: ft)
  finally show ?thesis by blast
qed

lemma segment_field_in_place:
  assumes "segment_start a" and "well_formed_field name fmt"
  shows "segment_field (strip (last (split_comma a) @ field_text name fmt @ t)) =
     Some (lower name, fmt)"
proof -
  from strip_field_text[OF assms(1), of name fmt t]
  obtain t' where "strip (last (split_comma a) @ field_text name fmt @ t) = field_text name fmt @ t'"
    by blast
  then show ?thesis
    by (simp add: segment_field_def field_pattern_match_field_text[OF assms(2)])
qed

lemma parse_loop_same_field:
  assumes "segment_field x = segment_field y" and "segment_field x \<noteq> None"
  shows "parse_loop idx (x # ps) fp df = parse_loop idx (y # ps) fp df"
  by (rule parse_loop_cases[where p=x and fp=fp])
    (use assms in \<open>simp_all add: parse_loop_Cons\<close>)

lemma parse_format_string_cong:
  assumes "parse_loop 0 (split_parts s) Map.empty ''%m/%d/%Y'' =
      parse_loop 0 (split_parts s') Map.empty ''%m/%d/%Y''"
  shows "parse_format_string s = parse_format_string s'"
  using assms by (simp add: parse_format_string_def split_parts_not_Nil)

lemma parse_replace_segment:
  assumes "CHR '','' \<notin> set m" and "CHR '','' \<notin> set m'"
    and "segment_field (strip (last (split_comma a) @ m @ hd (split_comma r))) =
         segment_field (strip (last (split_comma a) @ m' @ hd (split_comma r)))"
    and "segment_field (strip (last (split_comma a) @ m @ hd (split_comma r))) \<noteq> None"
  shows "parse_format_string (a @ m @ r) = parse_format_string (a @ m' @ r)"
proof (rule parse_format_string_cong)
  let ?P = "map strip (butlast (split_comma a))"
  let ?Q = "map strip (tl (split_comma r))"
  let ?x = "strip (last (split_comma a) @ m @ hd (split_comma r))"
  let ?y = "strip (last (split_comma a) @ m' @ hd (split_comma r))"
  have "parse_loop 0 (?P @ ?x # ?Q) Map.empty ''%m/%d/%Y'' =
      parse_loop 0 (?P @ ?y # ?Q) Map.empty ''%m/%d/%Y''"
  proof (cases "parse_loop 0 ?P Map.empty ''%m/%d/%Y''")
    case (Inl e)
    then show ?thesis by (simp add: parse_loop_append)
  next
    case (Inr st)
    obtain fp df where "st = (fp, df)" by (cases st)
    with Inr show ?thesis
      by (simp add: parse_loop_append parse_loop_same_field[OF assms(3,4)])
  qed
  then show "parse_loop 0 (split_parts (a @ m @ r)) Map.empty ''%m/%d/%Y'' =
      parse_loop 0 (split_parts (a @ m' @ r)) Map.empty ''%m/%d/%Y''"
    by (simp only: split_parts_middle[OF assms(1)] split_parts_middle[OF assms(2)])
qed

text \<open>
  Claim C8. The match is anchored at the start of the stripped segment only. Let a
  well-formed field text \<open>{name}\<close> or \<open>{name:fmt}\<close> stand at the start of a segment
  (after the prefix \<open>a\<close>, up to white space), followed by the rest \<open>r\<close> of the format
  string. Putting any characters \<open>t\<close> of the segment (so no comma, which would end the
  segment) right after the closing brace does not change the outcome of the function:
  the same \<open>FormatSpec\<close>, or the same error.
\<close>

theorem trailing_characters_ignored:
  assumes "segment_start a" and "well_formed_field name fmt" and "CHR '','' \<notin> set t"
  shows "parse_format_string (a @ field_text name fmt @ t @ r) =
         parse_format_string (a @ field_text name fmt @ r)"
proof -
  have m: "CHR '','' \<notin> set (field_text name fmt @ t)"
    using field_text_no_comma[OF assms(2)] assms(3) by simp
  have m': "CHR '','' \<notin> set (field_text name fmt)"
    by (rule field_text_no_comma[OF assms(2)])
  have x: "segment_field (strip (last (split_comma a) @ (field_text name fmt @ t) @ hd (split_comma r))) =
      Some (lower name, fmt)"
    using segment_field_in_place[OF assms(1,2), of "t @ hd (split_comma r)"] by simp
  have y: "segment_field (strip (last (split_comma a) @ field_text name fmt @ hd (split_comma r))) =
      Some (lower name, fmt)"
    by (rule segment_field_in_place[OF assms(1,2)])
  have "parse_format_string (a @ (field_text name fmt @ t) @ r) =
      parse_format_string (a @ field_text name fmt @ r)"
    by (rule parse_replace_segment[OF m m']) (simp_all only: x y option.simps not_False_eq_True)
  then show ?thesis by simp
qed

theorem trailing_characters_ignored_witness:
  "parse_format_string ''{date}, {description} (text) , {amount}'' =
     parse_format_string ''{date}, {description}, {amount}'' \<and>
   parse_format_string ''{date}, {description}, {amount}'' =
     Inr \<lparr>date_column = 0, date_format = ''%m/%d/%Y'', description_column = 1,
          amount_column = 2, location_column = None, has_header = True,
          source_name = None\<rparr>"
proof -
  have a: "segment_start ''{date}, ''"
    by (simp add: segment_start_def py_isspace_def)
  have w: "well_formed_field ''description'' None"
    by (simp add: well_formed_field_def is_word_def)
  have t: "CHR '','' \<notin> set '' (text) ''"
    by simp
  have r: "parse_format_string ''{date}, {description}, {amount}'' =
     Inr \<lparr>date_column = 0, date_format = ''%m/%d/%Y'', description_column = 1,
          amount_column = 2, location_column = None, has_header = True,
          source_name = None\<rparr>"
    by code_simp
  from trailing_characters_ignored[OF a w t, of "'', {amount}''"] r
  show ?thesis by (simp add: field_text_def)
qed

text \<open>
  Claim C9. The identifier is compared in lower case. Let a well-formed field text
  stand at the start of a segment, as above; writing its identifier \<open>name\<close> in another
  letter case (an identifier \<open>name'\<close> with the same lower-case form) does not change
  the outcome of the function: the same \<open>FormatSpec\<close>, or the same error.
\<close>

theorem identifier_case_insensitive:
  assumes "segment_start a"
    and "well_formed_field name fmt" and "well_formed_field name' fmt"
    and "lower name = lower name'"
  shows "parse_format_string (a @ field_text name fmt @ r) =
         parse_format_string (a @ field_text name' fmt @ r)"
proof -
  have x: "segment_field (strip (last (split_comma a) @ field_text name fmt @ hd (split_comma r))) =
      Some (lower name, fmt)"
    by (rule segment_field_in_place[OF assms(1,2)])
  have y: "segment_field (strip (last (split_comma a) @ field_text name' fmt @ hd (split_comma r))) =
      Some (lower name, fmt)"
    using segment_field_in_place[OF assms(1,3), of "hd (split_comma r)"] assms(4) by simp
  show ?thesis
    by (rule parse_replace_segment[OF field_text_no_comma[OF assms(2)]
          field_text_no_comma[OF assms(3)]])
      (simp_all only: x y option.simps not_False_eq_True)
qed

theorem identifier_case_insensitive_witness:
  "parse_format_string ''{DATE:%Y}, {description}, {amount}'' =
     parse_format_string ''{date:%Y}, {description}, {amount}'' \<and>
   parse_format_string ''{date:%Y}, {description}, {amount}'' =
     Inr \<lparr>date_column = 0, date_format = ''%Y'', description_column = 1,
          amount_column = 2, location_column = None, has_header = True,
          source_name = None\<rparr>"
proof -
  have a: "segment_start []"
    by (simp add: segment_start_def)
  have w: "well_formed_field ''DATE'' (Some ''%Y'')"
    by (simp add: well_formed_field_def is_word_def)
  have w': "well_formed_field ''date'' (Some ''%Y'')"
    by (simp add: well_formed_field_def is_word_def)
  have l: "lower ''DATE'' = lower ''date''"
    by (simp add: ev)
  have r: "parse_format_string ''{date:%Y}, {description}, {amount}'' =
     Inr \<lparr>date_column = 0, date_format = ''%Y'', description_column = 1,
          amount_column = 2, location_column = None, has_header = True,
          source_name = None\<rparr>"
    by code_simp
  from identifier_case_insensitive[OF a w w' l, of "'', {description}, {amount}''"] r
  show ?thesis by (simp add: field_text_def)
qed

subsection \<open>Skip segments\<close>

text \<open>A run of skip segments moves the loop on and leaves its state as it is; and the
  loop started \<open>n\<close> positions later records the same tags, \<open>n\<close> positions later.\<close>

lemma split_comma_comma:
  "split_comma (x @ CHR '','' # y) = split_comma x @ split_comma y"
  using split_comma_not_Nil[of x] by (simp add: split_comma_append[of x "CHR '','' # y"])

lemma split_comma_skips:
  "split_comma (concat (replicate n ''{_},'') @ b) = replicate n ''{_}'' @ split_comma b"
proof (induction n)
  case 0
  show ?case by simp
next
  case (Suc n)
  have "split_comma (''{_}'' @ CHR '','' # (concat (replicate n ''{_},'') @ b)) =
      split_comma ''{_}'' @ split_comma (concat (replicate n ''{_},'') @ b)"
    by (rule split_comma_comma)
  then show ?case by (simp add: Suc.IH)
qed

lemma split_comma_boundary:
  assumes "a = [] \<or> last a = CHR '',''"
  shows "\<exists>P. length P = length (filter (\<lambda>c. c = CHR '','') a) \<and>
           (\<forall>y. split_comma (a @ y) = P @ split_comma y)"
proof (cases "a = []")
  case True
  then show ?thesis by simp
next
  case False
  with assms obtain a' where a: "a = a' @ [CHR '','']"
    by (metis append_butlast_last_id)
  have "split_comma (a @ y) = split_comma a' @ split_comma y" for y
    using split_comma_comma[of a' y] by (simp add: a)
  moreover have "length (split_comma a') = length (filter (\<lambda>c. c = CHR '','') a)"
    by (simp add: a length_split_comma)
  ultimately show ?thesis by blast
qed

lemma skip_segment: "strip ''{_}'' = ''{_}''" "segment_field ''{_}'' = Some (''_'', None)"
  by (simp_all add: ev)

lemma parse_loop_skips:
  "parse_loop idx (replicate n ''{_}'' @ ps) fp df = parse_loop (idx + n) ps fp df"
proof (induction n arbitrary: idx)
  case 0
  show ?case by simp
next
  case (Suc n)
  show ?case
    by (simp add: parse_loop_skip[OF skip_segment(2)] Suc.IH)
qed

lemma parse_loop_range:
  assumes "parse_loop idx ps fp df = Inr (fp', df')" and "fp' f = Some j"
  shows "fp f = Some j \<or> (idx \<le> j \<and> j < idx + length ps)"
  using assms
proof (induction ps arbitrary: idx fp df)
  case Nil
  then show ?case by simp
next
  case (Cons p ps)
  show ?case
  proof (rule parse_loop_cases[where p=p and fp=fp])
    assume "segment_field p = None"
    with Cons.prems show ?thesis by (simp add: parse_loop_no_match)
  next
    fix fmt assume "segment_field p = Some (''_'', fmt)"
    with Cons.prems have "parse_loop (Suc idx) ps fp df = Inr (fp', df')"
      by (simp add: parse_loop_skip)
    from Cons.IH[OF this Cons.prems(2)] show ?thesis by auto
  next
    fix t fmt assume "segment_field p = Some (t, fmt)" "t \<noteq> ''_''" "t \<notin> valid_fields"
    with Cons.prems show ?thesis by (simp add: parse_loop_unknown)
  next
    fix t fmt i
    assume "segment_field p = Some (t, fmt)" "t \<noteq> ''_''" "t \<in> valid_fields" "fp t = Some i"
    with Cons.prems show ?thesis by (simp add: parse_loop_duplicate)
  next
    fix t fmt
    assume sf: "segment_field p = Some (t, fmt)" "t \<noteq> ''_''" "t \<in> valid_fields" "fp t = None"
    with Cons.prems(1)
    have "parse_loop (Suc idx) ps (fp(t \<mapsto> idx))
        (case fmt of Some f \<Rightarrow> if t = ''date'' then f else df | None \<Rightarrow> df) = Inr (fp', df')"
      by (simp add: parse_loop_record)
    from Cons.IH[OF this Cons.prems(2)] show ?thesis
      by (auto split: if_splits)
  qed
qed

lemma parse_loop_shift:
  assumes "parse_loop idx ps fp df = Inr (fp', df')" and "k \<le> idx"
  shows "parse_loop (idx + n) ps (map_option (shift_column k n) \<circ> fp) df =
           Inr (map_option (shift_column k n) \<circ> fp', df')"
  using assms
proof (induction ps arbitrary: idx fp df)
  case Nil
  then show ?case by simp
next
  case (Cons p ps)
  let ?sh = "map_option (shift_column k n)"
  show ?case
  proof (rule parse_loop_cases[where p=p and fp=fp])
    assume "segment_field p = None"
    with Cons.prems show ?thesis by (simp add: parse_loop_no_match)
  next
    fix fmt assume sf: "segment_field p = Some (''_'', fmt)"
    with Cons.prems have "parse_loop (Suc idx) ps fp df = Inr (fp', df')"
      by (simp add: parse_loop_skip)
    from Cons.IH[OF this] Cons.prems(2) sf show ?thesis
      by (simp add: parse_loop_skip)
  next
    fix t fmt assume "segment_field p = Some (t, fmt)" "t \<noteq> ''_''" "t \<notin> valid_fields"
    with Cons.prems show ?thesis by (simp add: parse_loop_unknown)
  next
    fix t fmt i
    assume "segment_field p = Some (t, fmt)" "t \<noteq> ''_''" "t \<in> valid_fields" "fp t = Some i"
    with Cons.prems show ?thesis by (simp add: parse_loop_duplicate)
  next
    fix t fmt
    assume sf: "segment_field p = Some (t, fmt)" "t \<noteq> ''_''" "t \<in> valid_fields" "fp t = None"
    let ?df1 = "case fmt of Some f \<Rightarrow> if t = ''date'' then f else df | None \<Rightarrow> df"
    from sf Cons.prems(1)
    have "parse_loop (Suc idx) ps (fp(t \<mapsto> idx)) ?df1 = Inr (fp', df')"
      by (simp add: parse_loop_record)
    moreover have "k \<le> Suc idx" using Cons.prems(2) by simp
    ultimately have ih: "parse_loop (Suc idx + n) ps (?sh \<circ> (fp(t \<mapsto> idx))) ?df1 =
        Inr (?sh \<circ> fp', df')"
      by (rule Cons.IH)
    have upd: "(?sh \<circ> fp)(t \<mapsto> idx + n) = ?sh \<circ> (fp(t \<mapsto> idx))"
      using Cons.prems(2) by (auto simp: fun_eq_iff shift_column_def)
    have fresh: "(?sh \<circ> fp) t = None" using sf(4) by simp
    have "parse_loop (idx + n) (p # ps) (?sh \<circ> fp) df =
        parse_loop (Suc (idx + n)) ps ((?sh \<circ> fp)(t \<mapsto> idx + n)) ?df1"
      using sf(1-3) fresh by (rule parse_loop_record)
    also have "\<dots> = parse_loop (Suc idx + n) ps (?sh \<circ> (fp(t \<mapsto> idx))) ?df1"
      by (simp only: upd add_Suc)
    also note ih
    finally show ?thesis .
  qed
qed

lemma parse_format_string_Inr_record:
  assumes "parse_format_string s = Inr spec"
  shows "\<exists>fp df dc sc ac.
           parse_loop 0 (split_parts s) Map.empty ''%m/%d/%Y'' = Inr (fp, df) \<and>
           fp ''date'' = Some dc \<and> fp ''description'' = Some sc \<and> fp ''amount'' = Some ac \<and>
           spec = \<lparr>date_column = dc, date_format = df, description_column = sc,
                    amount_column = ac, location_column = fp ''location'',
                    has_header = True, source_name = None\<rparr>"
proof (cases "parse_loop 0 (split_parts s) Map.empty ''%m/%d/%Y''")
  case (Inl e)
  with assms show ?thesis by (simp add: parse_format_string_error)
next
  case (Inr r)
  obtain fp df where r: "r = (fp, df)" by (cases r)
  from assms Inr r show ?thesis
    by (auto simp: parse_format_string_def split_parts_not_Nil Let_def
        split: option.splits if_splits)
qed

text \<open>
  Claim C10. The skip branch comes before the vocabulary and duplicate checks, so skip
  segments are never rejected, however many there are. Take a format string that
  parses to a \<open>FormatSpec\<close>, cut at a segment boundary (the prefix \<open>a\<close> is empty or
  ends with a comma). With any number \<open>n\<close> of segments \<open>{_}\<close> put in at the boundary the
  string still parses, and each of them takes a position: the columns of the segments
  after the boundary move up by \<open>n\<close>, the others stay.
\<close>

theorem skip_segments_exempt:
  assumes "a = [] \<or> last a = CHR '',''"
    and "parse_format_string (a @ b) = Inr spec"
  shows "parse_format_string (a @ concat (replicate n ''{_},'') @ b) =
           Inr (shift_columns (length (filter (\<lambda>c. c = CHR '','') a)) n spec)"
proof -
  let ?k = "length (filter (\<lambda>c. c = CHR '','') a)"
  let ?sh = "map_option (shift_column ?k n)"
  from split_comma_boundary[OF assms(1)]
  obtain P where lenP: "length P = ?k" and sp: "\<And>y. split_comma (a @ y) = P @ split_comma y"
    by blast
  let ?P = "map strip P"
  let ?Q = "map strip (split_comma b)"
  have parts0: "split_parts (a @ b) = ?P @ ?Q"
    by (simp add: split_parts_def sp)
  have parts1: "split_parts (a @ concat (replicate n ''{_},'') @ b) =
      ?P @ replicate n ''{_}'' @ ?Q"
    by (simp add: split_parts_def sp split_comma_skips skip_segment(1))
  from parse_format_string_Inr_record[OF assms(2)]
  obtain fp df dc sc ac
    where run: "parse_loop 0 (?P @ ?Q) Map.empty ''%m/%d/%Y'' = Inr (fp, df)"
      and cols: "fp ''date'' = Some dc" "fp ''description'' = Some sc" "fp ''amount'' = Some ac"
      and spec: "spec = \<lparr>date_column = dc, date_format = df, description_column = sc,
                    amount_column = ac, location_column = fp ''location'',
                    has_header = True, source_name = None\<rparr>"
    unfolding parts0 by blast
  from run obtain fp1 df1
    where r1: "parse_loop 0 ?P Map.empty ''%m/%d/%Y'' = Inr (fp1, df1)"
      and r2: "parse_loop ?k ?Q fp1 df1 = Inr (fp, df)"
    by (cases "parse_loop 0 ?P Map.empty ''%m/%d/%Y''")
      (auto simp: parse_loop_append lenP)
  have small: "?sh \<circ> fp1 = fp1"
  proof
    fix f
    show "(?sh \<circ> fp1) f = fp1 f"
    proof (cases "fp1 f")
      case None
      then show ?thesis by simp
    next
      case (Some j)
      from parse_loop_range[OF r1 Some] have "j < ?k" by (simp add: lenP)
      with Some show ?thesis by (simp add: shift_column_def)
    qed
  qed
  from parse_loop_shift[OF r2 le_refl, of n]
  have "parse_loop (?k + n) ?Q fp1 df1 = Inr (?sh \<circ> fp, df)"
    by (simp only: small)
  then have r3: "parse_loop 0 (?P @ replicate n ''{_}'' @ ?Q) Map.empty ''%m/%d/%Y'' =
      Inr (?sh \<circ> fp, df)"
    by (simp add: parse_loop_append[where ps = "map strip P"] r1 parse_loop_skips lenP)
  have "parse_format_string (a @ concat (replicate n ''{_},'') @ b) =
      Inr \<lparr>date_column = shift_column ?k n dc, date_format = df,
           description_column = shift_column ?k n sc, amount_column = shift_column ?k n ac,
           location_column = (?sh \<circ> fp) ''location'', has_header = True,
           source_name = None\<rparr>"
    by (rule parse_format_string_loop[where fp = "?sh \<circ> fp"])
      (simp_all add: parts1 r3 cols)
  then show ?thesis
    by (simp add: spec shift_columns_def)
qed

theorem skip_segments_exempt_witness:
  "parse_format_string ''{date},{_},{_},{_},{description}, {amount}'' =
     Inr \<lparr>date_column = 0, date_format = ''%m/%d/%Y'', description_column = 4,
          amount_column = 5, location_column = None, has_header = True,
          source_name = None\<rparr>"
proof -
  have a: "''{date},'' = [] \<or> last ''{date},'' = CHR '',''"
    by simp
  have r: "parse_format_string (''{date},'' @ ''{description}, {amount}'') =
     Inr \<lparr>date_column = 0, date_format = ''%m/%d/%Y'', description_column = 1,
          amount_column = 2, location_column = None, has_header = True,
          source_name = None\<rparr>"
    by code_simp
  have n: "replicate 3 ''{_},'' = [''{_},'', ''{_},'', ''{_},'']"
    by (simp add: numeral_3_eq_3)
  from skip_segments_exempt[OF a r, of 3]
  show ?thesis
    by (simp add: n shift_columns_def shift_column_def)
qed

end
